theory Spec2Isabelle
  imports Main "HOL-Library.Word" "HOL-Library.Sublist"
begin

section \<open>The stale-lease watchdog of the azureeventhub input\<close>

text \<open>
  A shallow embedding of \<^verbatim>\<open>x-pack/filebeat/input/azureeventhub/lease.go\<close> and of the
  event handler and the watchdog goroutine of \<^verbatim>\<open>runWithEPH\<close> in \<^verbatim>\<open>eph.go\<close>.

  The Azure SDK (processor host, blob store), \<^verbatim>\<open>encoding/json\<close>, the clock and the logger
  are collaborators of the code, not part of it. Their answers are inputs of the model
  (the record \<open>World\<close>), and every call the code makes to them is written to a trace of
  events, in program order, so that theorems can speak about which calls were made.
\<close>

subsection \<open>Time\<close>

text \<open>
  A \<^verbatim>\<open>time.Time\<close> is an instant in nanoseconds on the wall clock, a \<^verbatim>\<open>time.Duration\<close> a
  number of nanoseconds. \<^verbatim>\<open>time.Now()\<close> is far from the ends of the representable range,
  so \<^verbatim>\<open>Add\<close> of half an hour does not saturate, and \<^verbatim>\<open>Before\<close> compares wall instants
  (a time read from JSON carries no monotonic reading).
\<close>

type_synonym Time = int
type_synonym Duration = int

definition Second :: Duration where
  "Second = 1000000000"

definition Minute :: Duration where
  "Minute = 60 * Second"

definition Add :: "Time \<Rightarrow> Duration \<Rightarrow> Time" where
  "Add t d = t + d"

definition Before :: "Time \<Rightarrow> Time \<Rightarrow> bool" where
  "Before t u = (t < u)"

subsection \<open>Errors and panics\<close>

text \<open>
  The code treats every \<^verbatim>\<open>error\<close> alike (it only tests \<^verbatim>\<open>err != nil\<close>). The constructors
  are the kinds of failure the store can answer with, and \<open>ErrorString\<close> is
  \<^verbatim>\<open>errors.New\<close>. A \<^verbatim>\<open>nil\<close> error is \<open>None\<close>.
\<close>

datatype error =
    NotFoundError
  | TransientIOError
  | DeserializationError
  | TokenInvalidError
  | ErrorString string

datatype panic =
    NilPointerDereference
  | PanicError error

subsection \<open>Leases\<close>

datatype LeaseStateType =
    LeaseStateNone
  | LeaseStateAvailable
  | LeaseStateLeased
  | LeaseStateExpired
  | LeaseStateBreaking
  | LeaseStateBroken

text \<open>\<^verbatim>\<open>eph.Lease\<close> and \<^verbatim>\<open>persist.Checkpoint\<close>, the two SDK structs a lease blob holds.\<close>

record eph_Lease =
  PartitionID :: string
  Epoch :: int
  Owner :: string

record persist_Checkpoint =
  Offset :: string
  SequenceNumber :: int
  EnqueueTime :: Time

text \<open>
  \<^verbatim>\<open>StorageLease\<close> (lease.go, lines 28 to 33). The embedded \<^verbatim>\<open>*eph.Lease\<close> and the field
  \<^verbatim>\<open>Checkpoint *persist.Checkpoint\<close> are pointers: \<open>None\<close> is \<^verbatim>\<open>nil\<close>, which is what
  \<^verbatim>\<open>json.Unmarshal\<close> leaves when the blob has no such member or has \<^verbatim>\<open>null\<close> there.
\<close>

record StorageLease =
  Lease :: "eph_Lease option"
  Checkpoint :: "persist_Checkpoint option"
  State :: LeaseStateType
  Token :: string

text \<open>\<^verbatim>\<open>LeaseFixer\<close> (lease.go, lines 17 to 26): the fields the methods below read.\<close>

record LeaseFixer =
  containerName :: string
  accountName :: string
  blobPathPrefix :: string

subsection \<open>The collaborators\<close>

text \<open>
  What \<^verbatim>\<open>blobURL.Download\<close> answers: the body as \<^verbatim>\<open>ioutil.ReadAll\<close> reads it (the read
  can fail) and the lease state of the blob.
\<close>

record DownloadResponse =
  Body :: "error + string"
  LeaseState :: LeaseStateType

text \<open>
  The world as one pass of the watchdog sees it. The store and the clock may change
  between two calls of one pass, so their answers depend on the position of the call in
  its loop (the index \<open>i\<close> of the partition or of the lease) as well as on its arguments.
\<close>

record World =
  PartitionIDsBeingProcessed :: "string list"
  GetPartitionIDs :: "string list"
  Download :: "nat \<Rightarrow> string \<Rightarrow> error + DownloadResponse"
  Unmarshal :: "string \<Rightarrow> error + StorageLease"
  BlobReleaseLease :: "nat \<Rightarrow> string \<Rightarrow> string \<Rightarrow> error option"
  Now :: "nat \<Rightarrow> Time"

datatype event =
    LogError string
  | CallPartitionIDsBeingProcessed
  | CallGetPartitionIDs
  | StoreDownload string
  | StoreReleaseLease string string "error option"
  | TimeSleep Duration
  | InputStop
  | CancelWatcher

text \<open>\<open>andThen evs r\<close>: the events \<open>evs\<close> happened, then the computation \<open>r\<close> ran.\<close>

definition andThen :: "event list \<Rightarrow> event list \<times> 'a \<Rightarrow> event list \<times> 'a" where
  "andThen evs r = (evs @ fst r, snd r)"

subsection \<open>lease.go\<close>

text \<open>
  \<^verbatim>\<open>NewLeaseFixer\<close> (lines 35 to 53). \<open>urlParse\<close> is \<^verbatim>\<open>url.Parse\<close>, of which only the
  error matters here; the URLs and the processor it stores are the collaborators of
  \<open>World\<close>. The struct literal leaves \<^verbatim>\<open>blobPathPrefix\<close> at its zero value.
\<close>

definition NewLeaseFixer ::
  "(string \<Rightarrow> error option) \<Rightarrow> string \<Rightarrow> string \<Rightarrow> string \<Rightarrow> error + LeaseFixer" where
  "NewLeaseFixer urlParse account container storageEndpointSuffix =
     (case urlParse (''https://'' @ account @ ''.blob.'' @ storageEndpointSuffix) of
        Some err \<Rightarrow> Inl err
      | None \<Rightarrow>
          Inr \<lparr>containerName = container, accountName = account, blobPathPrefix = ''''\<rparr>)"

text \<open>\<^verbatim>\<open>leaseFromResponse\<close> (lines 85 to 97).\<close>

definition leaseFromResponse :: "World \<Rightarrow> DownloadResponse \<Rightarrow> error + StorageLease" where
  "leaseFromResponse w res =
     (case Body res of
        Inl err \<Rightarrow> Inl err
      | Inr b \<Rightarrow>
          (case Unmarshal w b of
             Inl err \<Rightarrow> Inl err
           | Inr lease \<Rightarrow> Inr (lease\<lparr>State := LeaseState res\<rparr>)))"

text \<open>\<^verbatim>\<open>getLease\<close> (lines 76 to 83); \<open>i\<close> is the position of the call in the loop of \<^verbatim>\<open>GetLeases\<close>.\<close>

definition getLease :: "LeaseFixer \<Rightarrow> World \<Rightarrow> nat \<Rightarrow> string \<Rightarrow> event list \<times> (error + StorageLease)" where
  "getLease sl w i partitionID =
     (let blob = blobPathPrefix sl @ partitionID in
        ([StoreDownload blob],
         case Download w i blob of
           Inl err \<Rightarrow> Inl err
         | Inr res \<Rightarrow> leaseFromResponse w res))"

text \<open>
  The loop of \<^verbatim>\<open>GetLeases\<close> (lines 59 to 65) from index \<open>i\<close> on, over the partition IDs
  that are left. \<open>leases\<close> is the slice of pointers being filled; \<open>None\<close> is \<^verbatim>\<open>nil\<close>.
\<close>

fun getLeasesLoop ::
  "LeaseFixer \<Rightarrow> World \<Rightarrow> nat \<Rightarrow> string list \<Rightarrow> StorageLease option list
     \<Rightarrow> event list \<times> (error + StorageLease option list)" where
  "getLeasesLoop sl w i [] leases = ([], Inr leases)"
| "getLeasesLoop sl w i (pid # pids) leases =
     (case getLease sl w i pid of
        (evs, Inl err) \<Rightarrow> (evs, Inl err)
      | (evs, Inr lease) \<Rightarrow>
          andThen evs (getLeasesLoop sl w (Suc i) pids (leases[i := Some lease])))"

text \<open>\<^verbatim>\<open>GetLeases\<close> (lines 56 to 67).\<close>

definition GetLeases :: "LeaseFixer \<Rightarrow> World \<Rightarrow> event list \<times> (error + StorageLease option list)" where
  "GetLeases sl w =
     (let pids = GetPartitionIDs w;
          leases = replicate (length pids) None
      in andThen [CallGetPartitionIDs] (getLeasesLoop sl w 0 pids leases))"

text \<open>
  \<^verbatim>\<open>ReleaseLease\<close> (lines 70 to 74). \<^verbatim>\<open>lease.GetPartitionID()\<close> reads a field through the
  embedded pointer and panics when that pointer is \<^verbatim>\<open>nil\<close>.
\<close>

definition ReleaseLease ::
  "LeaseFixer \<Rightarrow> World \<Rightarrow> nat \<Rightarrow> StorageLease \<Rightarrow> event list \<times> (panic + error option)" where
  "ReleaseLease sl w i lease =
     (case Lease lease of
        None \<Rightarrow> ([], Inl NilPointerDereference)
      | Some l \<Rightarrow>
          (let blob = blobPathPrefix sl @ PartitionID l;
               err = BlobReleaseLease w i blob (Token lease)
           in ([StoreReleaseLease blob (Token lease) err], Inr err)))"

subsection \<open>eph.go: the watchdog goroutine\<close>

text \<open>
  The staleness test of line 143,
  \<^verbatim>\<open>lease.Checkpoint.EnqueueTime.Before(time.Now().Add(-30 * time.Minute))\<close>, at the clock
  reading \<open>now\<close>. Reading \<^verbatim>\<open>EnqueueTime\<close> through a \<^verbatim>\<open>nil\<close> checkpoint panics.
\<close>

definition leaseIsStale :: "Time \<Rightarrow> StorageLease \<Rightarrow> panic + bool" where
  "leaseIsStale now lease =
     (case Checkpoint lease of
        None \<Rightarrow> Inl NilPointerDereference
      | Some cp \<Rightarrow> Inr (Before (EnqueueTime cp) (Add now (- 30 * Minute))))"

text \<open>
  The loop over the leases (lines 141 to 150) from index \<open>i\<close> on. \<open>lastErr\<close> is the
  variable of line 140. The result is \<open>lastErr\<close> after the loop, or the panic that ended it.
\<close>

fun releaseStaleLeases ::
  "LeaseFixer \<Rightarrow> World \<Rightarrow> nat \<Rightarrow> StorageLease option list \<Rightarrow> error option
     \<Rightarrow> event list \<times> (panic + error option)" where
  "releaseStaleLeases lf w i [] lastErr = ([], Inr lastErr)"
| "releaseStaleLeases lf w i (p # rest) lastErr =
     (case p of
        None \<Rightarrow> ([], Inl NilPointerDereference)
      | Some lease \<Rightarrow>
          (case leaseIsStale (Now w i) lease of
             Inl pn \<Rightarrow> ([], Inl pn)
           | Inr False \<Rightarrow> releaseStaleLeases lf w (Suc i) rest lastErr
           | Inr True \<Rightarrow>
               (case ReleaseLease lf w i lease of
                  (evs, Inl pn) \<Rightarrow> (LogError ''lease is stale, deleting'' # evs, Inl pn)
                | (evs, Inr None) \<Rightarrow>
                    andThen (LogError ''lease is stale, deleting'' # evs)
                      (releaseStaleLeases lf w (Suc i) rest lastErr)
                | (evs, Inr (Some err)) \<Rightarrow>
                    andThen (LogError ''lease is stale, deleting'' # evs @ [LogError ''error deleting lease''])
                      (releaseStaleLeases lf w (Suc i) rest (Some err)))))"

text \<open>
  Lines 127 to 132: the counter after the poll of the processor. \<^verbatim>\<open>zeroCount\<close> is a Go
  \<^verbatim>\<open>int\<close>, 64 bits wide on the platforms the input is built for; \<open>+\<close> wraps around and
  the comparison of line 133 is signed.
\<close>

definition countIdle :: "World \<Rightarrow> 64 word \<Rightarrow> 64 word" where
  "countIdle w zeroCount =
     (if length (PartitionIDsBeingProcessed w) = 0 then zeroCount + 1 else 0)"

text \<open>
  The block of lines 134 to 155, entered when the counter \<open>zc\<close> is above 60: read the
  leases, release the stale ones, and reset the counter when no release failed.
\<close>

definition checkStaleLeases :: "LeaseFixer \<Rightarrow> World \<Rightarrow> 64 word \<Rightarrow> event list \<times> (panic + 64 word)" where
  "checkStaleLeases lf w zc =
     andThen [LogError ''process is idle for a while'']
       (case GetLeases lf w of
          (evs, Inl err) \<Rightarrow> (evs @ [LogError ''error getting leases''], Inr zc)
        | (evs, Inr leases) \<Rightarrow>
            andThen evs
              (case releaseStaleLeases lf w 0 leases None of
                 (evs', Inl pn) \<Rightarrow> (evs', Inl pn)
               | (evs', Inr lastErr) \<Rightarrow>
                   (evs', Inr (if lastErr = None then 0 else zc))))"

text \<open>
  One pass of the \<^verbatim>\<open>default\<close> branch, lines 127 to 156 (all of it but the sleep): from
  the counter before the pass to the counter after it, or to the panic that ends the
  goroutine and with it the process.
\<close>

definition tick :: "LeaseFixer \<Rightarrow> World \<Rightarrow> 64 word \<Rightarrow> event list \<times> (panic + 64 word)" where
  "tick lf w zeroCount =
     (let zc = countIdle w zeroCount in
        andThen [CallPartitionIDsBeingProcessed]
          (if 60 <s zc then checkStaleLeases lf w zc else ([], Inr zc)))"

text \<open>
  The goroutine (lines 120 to 160) as a machine. At the \<^verbatim>\<open>select\<close> it returns when the
  context is done and runs one pass otherwise; then it is in \<^verbatim>\<open>time.Sleep\<close>, which does
  not look at the context. \<open>done\<close> says whether \<^verbatim>\<open>watcherCtx.Done()\<close> is closed when the
  step is taken.
\<close>

datatype phase = AtSelect | Sleeping | Returned | Crashed panic

record Watchdog =
  phase :: phase
  zeroCount :: "64 word"

definition startWatchdog :: Watchdog where
  "startWatchdog = \<lparr>phase = AtSelect, zeroCount = 0\<rparr>"

definition step :: "LeaseFixer \<Rightarrow> bool \<times> World \<Rightarrow> Watchdog \<Rightarrow> event list \<times> Watchdog" where
  "step lf inp s =
     (case phase s of
        AtSelect \<Rightarrow>
          (if fst inp then ([], s\<lparr>phase := Returned\<rparr>)
           else
             (case tick lf (snd inp) (zeroCount s) of
                (evs, Inl pn) \<Rightarrow> (evs, s\<lparr>phase := Crashed pn\<rparr>)
              | (evs, Inr zc) \<Rightarrow> (evs, \<lparr>phase = Sleeping, zeroCount = zc\<rparr>)))
      | Sleeping \<Rightarrow> ([TimeSleep (1 * Second)], s\<lparr>phase := AtSelect\<rparr>)
      | Returned \<Rightarrow> ([], s)
      | Crashed pn \<Rightarrow> ([], s))"

fun run :: "LeaseFixer \<Rightarrow> (bool \<times> World) list \<Rightarrow> Watchdog \<Rightarrow> event list \<times> Watchdog" where
  "run lf [] s = ([], s)"
| "run lf (inp # inps) s =
     (case step lf inp s of (evs, s') \<Rightarrow> andThen evs (run lf inps s'))"

subsection \<open>eph.go: the event handler\<close>

text \<open>
  The handler registered at lines 77 to 94. \<open>ok\<close> is what \<^verbatim>\<open>a.processEvents(e, "")\<close>
  returned. The result is the error the handler returns, or its panic.
\<close>

definition onEventErrMessage :: string where
  "onEventErrMessage = ''OnEvent function returned false. Stopping input worker''"

definition handler :: "bool \<Rightarrow> event list \<times> (panic + error option)" where
  "handler ok =
     (if \<not> ok then
        ([LogError onEventErrMessage, InputStop, CancelWatcher],
         Inl (PanicError (ErrorString onEventErrMessage)))
      else ([], Inr None))"

subsection \<open>Notions the properties are stated with\<close>

text \<open>The downloads \<^verbatim>\<open>GetLeases\<close> issues when it reads all of \<open>pids\<close>, in order.\<close>

definition downloadsOf :: "LeaseFixer \<Rightarrow> string list \<Rightarrow> event list" where
  "downloadsOf sl pids = map (\<lambda>pid. StoreDownload (blobPathPrefix sl @ pid)) pids"

text \<open>The blobs a trace downloads, in order.\<close>

fun downloaded :: "event list \<Rightarrow> string list" where
  "downloaded [] = []"
| "downloaded (StoreDownload b # evs) = b # downloaded evs"
| "downloaded (ev # evs) = downloaded evs"

definition releaseFailed :: "event \<Rightarrow> bool" where
  "releaseFailed ev = (case ev of StoreReleaseLease b t (Some e) \<Rightarrow> True | _ \<Rightarrow> False)"

definition isStoreCall :: "event \<Rightarrow> bool" where
  "isStoreCall ev =
     (case ev of StoreDownload b \<Rightarrow> True | StoreReleaseLease b t r \<Rightarrow> True | _ \<Rightarrow> False)"

text \<open>
  A pass over the leases that completes with no error: every lease was read, the loop
  over them did not panic, and \<^verbatim>\<open>lastErr\<close> is \<^verbatim>\<open>nil\<close> after it.
\<close>

definition cleanPass :: "LeaseFixer \<Rightarrow> World \<Rightarrow> bool" where
  "cleanPass lf w =
     (case GetLeases lf w of
        (evs, Inl err) \<Rightarrow> False
      | (evs, Inr leases) \<Rightarrow> snd (releaseStaleLeases lf w 0 leases None) = Inr None)"

subsection \<open>A store to run the code on\<close>

text \<open>
  Concrete inputs for the closed theorems below. Partition \<open>0\<close> has a checkpoint of 31
  minutes ago, partition \<open>1\<close> one of 5 minutes ago, and the lease of partition \<open>2\<close> has
  no checkpoint yet. The body of a blob is the partition ID, and \<open>exampleBlob\<close> is what
  \<^verbatim>\<open>json.Unmarshal\<close> makes of it.
\<close>

definition fixer :: LeaseFixer where
  "fixer = \<lparr>containerName = ''filebeat'', accountName = ''account'', blobPathPrefix = ''''\<rparr>"

definition exampleNow :: Time where
  "exampleNow = 100 * Minute"

definition checkpointAt :: "Time \<Rightarrow> persist_Checkpoint" where
  "checkpointAt t = \<lparr>Offset = ''0'', SequenceNumber = 0, EnqueueTime = t\<rparr>"

definition leaseOf :: "string \<Rightarrow> persist_Checkpoint option \<Rightarrow> StorageLease" where
  "leaseOf pid cp =
     \<lparr>Lease = Some \<lparr>PartitionID = pid, Epoch = 1, Owner = ''host''\<rparr>,
      Checkpoint = cp, State = LeaseStateNone, Token = ''token-'' @ pid\<rparr>"

definition exampleBlob :: "string \<Rightarrow> error + StorageLease" where
  "exampleBlob b =
     (if b = ''0'' then Inr (leaseOf ''0'' (Some (checkpointAt (exampleNow - 31 * Minute))))
      else if b = ''1'' then Inr (leaseOf ''1'' (Some (checkpointAt (exampleNow - 5 * Minute))))
      else if b = ''2'' then Inr (leaseOf ''2'' None)
      else Inl DeserializationError)"

definition served :: "string \<Rightarrow> error + DownloadResponse" where
  "served b = Inr \<lparr>Body = Inr b, LeaseState = LeaseStateLeased\<rparr>"

text \<open>A store that serves every blob but \<open>bad\<close>, whose download fails with \<open>err\<close>.\<close>

definition servedExcept :: "string \<Rightarrow> error \<Rightarrow> string \<Rightarrow> error + DownloadResponse" where
  "servedExcept bad err b = (if b = bad then Inl err else served b)"

text \<open>
  \<open>exampleWorld active pids dl rel\<close>: the processor is processing \<open>active\<close> and knows the
  partitions \<open>pids\<close>, the store answers a download of blob \<open>b\<close> with \<open>dl b\<close> and every
  release with \<open>rel\<close>, and the clock stands at \<open>exampleNow\<close>.
\<close>

definition exampleWorld ::
  "string list \<Rightarrow> string list \<Rightarrow> (string \<Rightarrow> error + DownloadResponse) \<Rightarrow> error option \<Rightarrow> World" where
  "exampleWorld active pids dl rel =
     \<lparr>PartitionIDsBeingProcessed = active, GetPartitionIDs = pids,
      Download = (\<lambda>i. dl), Unmarshal = exampleBlob,
      BlobReleaseLease = (\<lambda>i b t. rel), Now = (\<lambda>i. exampleNow)\<rparr>"

section \<open>Properties\<close>

subsection \<open>Unfolding\<close>

lemmas example_defs =
  fixer_def exampleNow_def checkpointAt_def leaseOf_def exampleBlob_def served_def
  exampleWorld_def

lemmas code_defs =
  tick_def countIdle_def checkStaleLeases_def GetLeases_def getLease_def
  leaseFromResponse_def ReleaseLease_def leaseIsStale_def andThen_def Let_def
  Before_def Add_def Minute_def Second_def

subsection \<open>Traces\<close>

lemma fst_andThen [simp]: "fst (andThen evs r) = evs @ fst r"
  by (simp add: andThen_def)

lemma snd_andThen [simp]: "snd (andThen evs r) = snd r"
  by (simp add: andThen_def)

lemma downloaded_append [simp]: "downloaded (xs @ ys) = downloaded xs @ downloaded ys"
  by (induction xs rule: downloaded.induct) simp_all

lemma downloaded_downloadsOf [simp]:
  "downloaded (downloadsOf sl pids) = map (\<lambda>pid. blobPathPrefix sl @ pid) pids"
  by (induction pids) (simp_all add: downloadsOf_def)

lemma downloadsOf_take: "downloadsOf sl (take n pids) = take n (downloadsOf sl pids)"
  by (simp add: downloadsOf_def take_map)

subsection \<open>Reading the leases\<close>

text \<open>Every fixer the program builds reads and releases the blob named by the partition ID.\<close>

lemma NewLeaseFixer_blobPathPrefix:
  "NewLeaseFixer urlParse account container endpointSuffix = Inr sl \<Longrightarrow> blobPathPrefix sl = ''''"
  by (auto simp: NewLeaseFixer_def split: option.splits)

lemma fst_getLease [simp]:
  "fst (getLease sl w i pid) = [StoreDownload (blobPathPrefix sl @ pid)]"
  by (simp add: getLease_def Let_def)

text \<open>When the loop succeeds it has read every partition, in order, and has stored each
  lease at the index of its partition; the entries below \<open>i\<close> are as they were.\<close>

lemma getLeasesLoop_ok:
  "snd (getLeasesLoop sl w i pids leases) = Inr ls \<Longrightarrow> i + length pids \<le> length leases \<Longrightarrow>
     length ls = length leases
     \<and> (\<forall>k<length pids. \<exists>lease. snd (getLease sl w (i + k) (pids ! k)) = Inr lease \<and> ls ! (i + k) = Some lease)
     \<and> (\<forall>j<i. ls ! j = leases ! j)
     \<and> fst (getLeasesLoop sl w i pids leases) = downloadsOf sl pids"
proof (induction pids arbitrary: i leases)
  case Nil
  then show ?case by (simp add: downloadsOf_def)
next
  case (Cons pid pids)
  obtain evs r where g: "getLease sl w i pid = (evs, r)" by (cases "getLease sl w i pid")
  with Cons.prems(1) obtain lease where r: "r = Inr lease"
    by (cases r) auto
  have evs: "evs = [StoreDownload (blobPathPrefix sl @ pid)]"
    using fst_getLease [of sl w i pid] g by simp
  let ?leases = "leases[i := Some lease]"
  have rec: "snd (getLeasesLoop sl w (Suc i) pids ?leases) = Inr ls"
    using Cons.prems(1) g r by simp
  have len: "Suc i + length pids \<le> length ?leases"
    using Cons.prems(2) by simp
  note IH = Cons.IH [OF rec len]
  have a: "length ls = length leases" using IH by simp
  have keep: "ls ! i = Some lease"
    using IH Cons.prems(2) by simp
  have b: "\<exists>lease. snd (getLease sl w (i + k) ((pid # pids) ! k)) = Inr lease \<and> ls ! (i + k) = Some lease"
    if "k < length (pid # pids)" for k
  proof (cases k)
    case 0
    then show ?thesis using g r keep by simp
  next
    case (Suc k')
    then have "k' < length pids" using that by simp
    with IH Suc show ?thesis by simp
  qed
  have c: "\<forall>j<i. ls ! j = leases ! j"
    using IH by simp
  have d: "fst (getLeasesLoop sl w i (pid # pids) leases) = downloadsOf sl (pid # pids)"
    using IH g r evs by (simp add: downloadsOf_def)
  from a b c d show ?case by blast
qed

text \<open>The loop stops at the first read that fails, and returns that error alone.\<close>

lemma getLeasesLoop_first_failure:
  "k < length pids \<Longrightarrow> snd (getLease sl w (i + k) (pids ! k)) = Inl err \<Longrightarrow>
   (\<forall>j<k. \<exists>lease. snd (getLease sl w (i + j) (pids ! j)) = Inr lease) \<Longrightarrow>
   getLeasesLoop sl w i pids leases = (downloadsOf sl (take (Suc k) pids), Inl err)"
proof (induction pids arbitrary: i k leases)
  case Nil
  then show ?case by simp
next
  case (Cons pid pids)
  obtain evs r where g: "getLease sl w i pid = (evs, r)" by (cases "getLease sl w i pid")
  have evs: "evs = [StoreDownload (blobPathPrefix sl @ pid)]"
    using fst_getLease [of sl w i pid] g by simp
  show ?case
  proof (cases k)
    case 0
    with Cons.prems(2) g evs show ?thesis by (simp add: downloadsOf_def)
  next
    case (Suc k')
    from Cons.prems(3) Suc obtain lease where l: "r = Inr lease"
      using g by fastforce
    have 1: "k' < length pids" using Cons.prems(1) Suc by simp
    have 2: "snd (getLease sl w (Suc i + k') (pids ! k')) = Inl err"
      using Cons.prems(2) Suc by simp
    have 3: "\<forall>j<k'. \<exists>lease. snd (getLease sl w (Suc i + j) (pids ! j)) = Inr lease"
    proof (intro allI impI)
      fix j assume "j < k'"
      then have "Suc j < k" using Suc by simp
      with Cons.prems(3) have "\<exists>lease. snd (getLease sl w (i + Suc j) ((pid # pids) ! Suc j)) = Inr lease"
        by blast
      then show "\<exists>lease. snd (getLease sl w (Suc i + j) (pids ! j)) = Inr lease" by simp
    qed
    from Cons.IH [OF 1 2 3, of "leases[i := Some lease]"] g l evs Suc show ?thesis
      by (simp add: downloadsOf_def andThen_def)
  qed
qed

text \<open>Whatever happens, the loop downloads a prefix of the partitions it was given.\<close>

lemma getLeasesLoop_events_prefix:
  "prefix (fst (getLeasesLoop sl w i pids leases)) (downloadsOf sl pids)"
proof (induction pids arbitrary: i leases)
  case Nil
  then show ?case by simp
next
  case (Cons pid pids)
  obtain evs r where g: "getLease sl w i pid = (evs, r)" by (cases "getLease sl w i pid")
  have evs: "evs = [StoreDownload (blobPathPrefix sl @ pid)]"
    using fst_getLease [of sl w i pid] g by simp
  show ?case
  proof (cases r)
    case (Inl err)
    with g evs show ?thesis by (simp add: downloadsOf_def)
  next
    case (Inr lease)
    with Cons.IH [of "Suc i" "leases[i := Some lease]"] g evs show ?thesis
      by (simp add: downloadsOf_def)
  qed
qed

lemma fst_GetLeases:
  "fst (GetLeases lf w) =
     CallGetPartitionIDs #
       fst (getLeasesLoop lf w 0 (GetPartitionIDs w) (replicate (length (GetPartitionIDs w)) None))"
  by (simp add: GetLeases_def Let_def)

lemma snd_GetLeases:
  "snd (GetLeases lf w) =
     snd (getLeasesLoop lf w 0 (GetPartitionIDs w) (replicate (length (GetPartitionIDs w)) None))"
  by (simp add: GetLeases_def Let_def)

subsection \<open>Releasing the stale leases\<close>

lemma ReleaseLease_returns:
  "ReleaseLease lf w i lease = (evs, Inr r) \<Longrightarrow>
     \<exists>l. Lease lease = Some l
        \<and> evs = [StoreReleaseLease (blobPathPrefix lf @ PartitionID l) (Token lease) r]
        \<and> r = BlobReleaseLease w i (blobPathPrefix lf @ PartitionID l) (Token lease)"
  by (auto simp: ReleaseLease_def Let_def split: option.splits)

lemma ReleaseLease_panics:
  "ReleaseLease lf w i lease = (evs, Inl pn) \<Longrightarrow> evs = []"
  by (auto simp: ReleaseLease_def Let_def split: option.splits)

text \<open>\<^verbatim>\<open>lastErr\<close> is \<^verbatim>\<open>nil\<close> after the loop exactly when it was before and no release failed.\<close>

lemma releaseStaleLeases_lastErr:
  "snd (releaseStaleLeases lf w i ls le) = Inr r \<Longrightarrow>
     (r = None) =
       (le = None \<and> (\<forall>ev \<in> set (fst (releaseStaleLeases lf w i ls le)). \<not> releaseFailed ev))"
proof (induction ls arbitrary: i le)
  case Nil
  then show ?case by simp
next
  case (Cons p rest)
  from Cons.prems obtain lease where p: "p = Some lease" by (cases p) auto
  from Cons.prems p obtain st where st: "leaseIsStale (Now w i) lease = Inr st"
    by (cases "leaseIsStale (Now w i) lease") auto
  show ?case
  proof (cases st)
    case False
    with Cons p st show ?thesis by simp
  next
    case True
    obtain evs rr where rl: "ReleaseLease lf w i lease = (evs, rr)"
      by (cases "ReleaseLease lf w i lease")
    from Cons.prems p st True rl obtain re where rr: "rr = Inr re" by (cases rr) auto
    from ReleaseLease_returns [OF rl [unfolded rr]] obtain b t
      where evs: "evs = [StoreReleaseLease b t re]" by blast
    show ?thesis
    proof (cases re)
      case None
      with Cons.prems p st True rl rr
      have "snd (releaseStaleLeases lf w (Suc i) rest le) = Inr r" by simp
      from Cons.IH [OF this] p st True rl rr None evs show ?thesis
        by (simp add: releaseFailed_def)
    next
      case (Some e)
      with Cons.prems p st True rl rr
      have "snd (releaseStaleLeases lf w (Suc i) rest (Some e)) = Inr r" by simp
      from Cons.IH [OF this] p st True rl rr Some evs show ?thesis
        by (simp add: releaseFailed_def)
    qed
  qed
qed

text \<open>The loop logs and releases, and does nothing else.\<close>

lemma releaseStaleLeases_events:
  "ev \<in> set (fst (releaseStaleLeases lf w i ls le)) \<Longrightarrow>
     (\<exists>m. ev = LogError m) \<or> (\<exists>b t r. ev = StoreReleaseLease b t r)"
proof (induction ls arbitrary: i le)
  case Nil
  then show ?case by simp
next
  case (Cons p rest)
  show ?case
  proof (cases p)
    case None
    with Cons.prems show ?thesis by simp
  next
    case (Some lease)
    show ?thesis
    proof (cases "leaseIsStale (Now w i) lease")
      case (Inl pn)
      with Cons.prems Some show ?thesis by simp
    next
      case (Inr st)
      show ?thesis
      proof (cases st)
        case False
        with Cons Some Inr show ?thesis by simp
      next
        case True
        obtain evs rr where rl: "ReleaseLease lf w i lease = (evs, rr)"
          by (cases "ReleaseLease lf w i lease")
        show ?thesis
        proof (cases rr)
          case (Inl pn)
          with ReleaseLease_panics rl have "evs = []" by blast
          with Cons.prems Some Inr True rl Inl show ?thesis by simp
        next
          case r: (Inr re)
          from ReleaseLease_returns [OF rl [unfolded r]] obtain b t
            where evs: "evs = [StoreReleaseLease b t re]" by blast
          show ?thesis
          proof (cases re)
            case None
            with Cons.prems Some Inr True rl r evs Cons.IH [of "Suc i" le] show ?thesis by auto
          next
            case e: (Some e)
            with Cons.prems Some Inr True rl r evs Cons.IH [of "Suc i" "Some e"] show ?thesis
              by auto
          qed
        qed
      qed
    qed
  qed
qed

lemma downloaded_releaseStaleLeases [simp]:
  "downloaded (fst (releaseStaleLeases lf w i ls le)) = []"
proof -
  have "\<forall>ev \<in> set evs. (\<exists>m. ev = LogError m) \<or> (\<exists>b t r. ev = StoreReleaseLease b t r)
          \<Longrightarrow> downloaded evs = []" for evs
    by (induction evs rule: downloaded.induct) auto
  then show ?thesis
    using releaseStaleLeases_events by blast
qed

subsection \<open>The counter\<close>

lemma sint_succ:
  fixes c :: "64 word"
  assumes "sint c < 2 ^ 63 - 1"
  shows "sint (c + 1) = sint c + 1"
proof -
  have lo: "- (2 ^ 63) \<le> sint c"
    using sint_ge [of c] by simp
  have "sint (c + 1) = signed_take_bit 63 (sint c + 1)"
    by (simp add: sint_word_ariths)
  also have "\<dots> = sint c + 1"
    using assms lo by (intro signed_take_bit_int_eq_self) auto
  finally show ?thesis .
qed

lemma sless_60_iff: "(60 <s (c :: 64 word)) = (60 < sint c)"
  by (simp add: word_sless_alt)

lemma countIdle_active [simp]:
  "PartitionIDsBeingProcessed w \<noteq> [] \<Longrightarrow> countIdle w zc = 0"
  by (simp add: countIdle_def)

lemma countIdle_idle [simp]:
  "PartitionIDsBeingProcessed w = [] \<Longrightarrow> countIdle w zc = zc + 1"
  by (simp add: countIdle_def)

subsection \<open>One tick\<close>

lemma tick_below:
  "\<not> 60 <s countIdle w zc \<Longrightarrow>
     tick lf w zc = ([CallPartitionIDsBeingProcessed], Inr (countIdle w zc))"
  by (simp add: tick_def Let_def andThen_def)

lemma tick_above:
  "60 <s countIdle w zc \<Longrightarrow>
     tick lf w zc =
       andThen [CallPartitionIDsBeingProcessed] (checkStaleLeases lf w (countIdle w zc))"
  by (simp add: tick_def Let_def)

lemma tick_active:
  "PartitionIDsBeingProcessed w \<noteq> [] \<Longrightarrow> tick lf w zc = ([CallPartitionIDsBeingProcessed], Inr 0)"
  by (simp add: tick_below sless_60_iff)

lemma checkStaleLeases_scans:
  "CallGetPartitionIDs \<in> set (fst (checkStaleLeases lf w zc))"
proof -
  obtain evs r where g: "GetLeases lf w = (evs, r)" by (cases "GetLeases lf w")
  then have "CallGetPartitionIDs \<in> set evs"
    using fst_GetLeases [of lf w] by simp
  with g show ?thesis
    by (cases r) (simp_all add: checkStaleLeases_def)
qed

lemma tick_scans_iff:
  "(CallGetPartitionIDs \<in> set (fst (tick lf w zc))) = (60 <s countIdle w zc)"
  by (cases "60 <s countIdle w zc") (simp_all add: tick_below tick_above checkStaleLeases_scans)

lemma checkStaleLeases_counter:
  "snd (checkStaleLeases lf w zc) = Inr z' \<Longrightarrow> z' = (if cleanPass lf w then 0 else zc)"
proof -
  assume a: "snd (checkStaleLeases lf w zc) = Inr z'"
  obtain evs r where g: "GetLeases lf w = (evs, r)" by (cases "GetLeases lf w")
  show ?thesis
  proof (cases r)
    case (Inl err)
    with a g show ?thesis by (simp add: checkStaleLeases_def cleanPass_def)
  next
    case (Inr leases)
    obtain evs' r' where rs: "releaseStaleLeases lf w 0 leases None = (evs', r')"
      by (cases "releaseStaleLeases lf w 0 leases None")
    with a g Inr show ?thesis
      by (cases r') (auto simp: checkStaleLeases_def cleanPass_def)
  qed
qed

subsection \<open>The staleness test\<close>

text \<open>
  C1. A lease record with no checkpoint is classified as not stale, whatever the time
  and the window, and evaluating it never faults.

  The code does not do this: the test of line 143 reads \<^verbatim>\<open>EnqueueTime\<close> through the
  \<^verbatim>\<open>nil\<close> checkpoint and panics, at every clock reading. On the example store, the tick
  that crosses the threshold with partition \<open>2\<close> among the partitions ends in that panic.
\<close>

theorem nil_checkpoint_panics:
  "leaseIsStale now (lease\<lparr>Checkpoint := None\<rparr>) = Inl NilPointerDereference
   \<and> tick fixer (exampleWorld [] [''2''] served None) 60 =
       ([CallPartitionIDsBeingProcessed, LogError ''process is idle for a while'',
         CallGetPartitionIDs, StoreDownload ''2''],
        Inl NilPointerDereference)"
  by (simp add: code_defs example_defs)

text \<open>
  C4. For a lease record with a checkpoint, the staleness test is true if and only if
  \<open>now\<close> minus the checkpoint's \<open>EnqueueTime\<close> strictly exceeds the window, which the
  code fixes at 30 minutes. In particular a record enqueued at \<open>now\<close> is not stale (the
  window is positive), and one enqueued at \<open>now - window - eps\<close> is stale for every
  \<open>eps > 0\<close>.
\<close>

theorem stale_iff_older_than_window:
  "Checkpoint lease = Some cp \<Longrightarrow>
     leaseIsStale now lease = Inr (30 * Minute < now - EnqueueTime cp)
     \<and> (0::int) < 30 * Minute
     \<and> (EnqueueTime cp = now \<longrightarrow> leaseIsStale now lease = Inr False)
     \<and> (\<forall>eps. 0 < eps \<longrightarrow> EnqueueTime cp = now - 30 * Minute - eps \<longrightarrow>
           leaseIsStale now lease = Inr True)"
  by (auto simp add: leaseIsStale_def Before_def Add_def Minute_def Second_def)

theorem stale_iff_older_than_window_witness:
  "Checkpoint (leaseOf ''0'' (Some (checkpointAt (exampleNow - 30 * Minute - 1))))
     = Some (checkpointAt (exampleNow - 30 * Minute - 1))
   \<and> leaseIsStale exampleNow (leaseOf ''0'' (Some (checkpointAt (exampleNow - 30 * Minute - 1))))
       = Inr True"
  using stale_iff_older_than_window
    [where lease = "leaseOf ''0'' (Some (checkpointAt (exampleNow - 30 * Minute - 1)))"
       and cp = "checkpointAt (exampleNow - 30 * Minute - 1)" and now = exampleNow]
  by (simp add: leaseOf_def checkpointAt_def Minute_def Second_def)

subsection \<open>The snapshot of the leases\<close>

text \<open>
  C10. When \<^verbatim>\<open>GetLeases\<close> succeeds it returns exactly one lease record per partition ID
  the processor reported, in the same order: the entry at index \<open>k\<close> is the record
  \<^verbatim>\<open>getLease\<close> fetched for the \<open>k\<close>-th partition ID, and no entry is missing (\<^verbatim>\<open>nil\<close>).
\<close>

theorem GetLeases_one_lease_per_partition:
  "snd (GetLeases sl w) = Inr ls \<Longrightarrow>
     length ls = length (GetPartitionIDs w)
     \<and> (\<forall>k<length (GetPartitionIDs w).
           \<exists>lease. ls ! k = Some lease \<and> snd (getLease sl w k (GetPartitionIDs w ! k)) = Inr lease)
     \<and> None \<notin> set ls"
proof -
  assume ok: "snd (GetLeases sl w) = Inr ls"
  let ?pids = "GetPartitionIDs w"
  let ?init = "replicate (length ?pids) (None :: StorageLease option)"
  have loop: "snd (getLeasesLoop sl w 0 ?pids ?init) = Inr ls"
    using ok by (simp add: snd_GetLeases)
  have "0 + length ?pids \<le> length ?init" by simp
  note r = getLeasesLoop_ok [OF loop this]
  have len: "length ls = length ?pids" using r by simp
  have each: "\<forall>k<length ?pids.
      \<exists>lease. ls ! k = Some lease \<and> snd (getLease sl w k (?pids ! k)) = Inr lease"
    using r by auto
  have "None \<notin> set ls"
  proof
    assume "None \<in> set ls"
    then obtain k where "k < length ls" "ls ! k = None"
      by (auto simp: in_set_conv_nth)
    with each len show False by auto
  qed
  with len each show ?thesis by blast
qed

theorem GetLeases_one_lease_per_partition_witness:
  "snd (GetLeases fixer (exampleWorld [] [''0'', ''1''] served None))
     = Inr [Some ((leaseOf ''0'' (Some (checkpointAt (exampleNow - 31 * Minute))))\<lparr>State := LeaseStateLeased\<rparr>),
            Some ((leaseOf ''1'' (Some (checkpointAt (exampleNow - 5 * Minute))))\<lparr>State := LeaseStateLeased\<rparr>)]
   \<and> None \<notin> set [Some ((leaseOf ''0'' (Some (checkpointAt (exampleNow - 31 * Minute))))\<lparr>State := LeaseStateLeased\<rparr>),
            Some ((leaseOf ''1'' (Some (checkpointAt (exampleNow - 5 * Minute))))\<lparr>State := LeaseStateLeased\<rparr>)]"
proof -
  have ok: "snd (GetLeases fixer (exampleWorld [] [''0'', ''1''] served None))
     = Inr [Some ((leaseOf ''0'' (Some (checkpointAt (exampleNow - 31 * Minute))))\<lparr>State := LeaseStateLeased\<rparr>),
            Some ((leaseOf ''1'' (Some (checkpointAt (exampleNow - 5 * Minute))))\<lparr>State := LeaseStateLeased\<rparr>)]"
    by (simp add: code_defs example_defs)
  from GetLeases_one_lease_per_partition [OF ok] ok show ?thesis by blast
qed

text \<open>
  C2. A snapshot pass in which the read of one partition's record fails still produces
  results for every other partition, and the watchdog proceeds with the records that
  were read.

  The code does not do this: \<^verbatim>\<open>GetLeases\<close> returns \<^verbatim>\<open>nil, err\<close> at the first failed read.
  On the example store with the partitions \<open>1\<close> and \<open>0\<close>, where the blob of \<open>1\<close> is
  not found and the lease of \<open>0\<close> can be read and is stale, \<^verbatim>\<open>GetLeases\<close> returns the
  error alone, partition \<open>0\<close> is not read, and the tick releases nothing.
\<close>

theorem failed_read_fails_whole_snapshot:
  "snd (getLease fixer
          (exampleWorld [] [''1'', ''0''] (servedExcept ''1'' NotFoundError) None)
          1 ''0'')
     = Inr ((leaseOf ''0'' (Some (checkpointAt (exampleNow - 31 * Minute))))\<lparr>State := LeaseStateLeased\<rparr>)
   \<and> GetLeases fixer
         (exampleWorld [] [''1'', ''0''] (servedExcept ''1'' NotFoundError) None)
     = ([CallGetPartitionIDs, StoreDownload ''1''], Inl NotFoundError)
   \<and> tick fixer
         (exampleWorld [] [''1'', ''0''] (servedExcept ''1'' NotFoundError) None)
         60
     = ([CallPartitionIDsBeingProcessed, LogError ''process is idle for a while'',
         CallGetPartitionIDs, StoreDownload ''1'', LogError ''error getting leases''],
        Inr 61)"
  by (simp add: code_defs example_defs servedExcept_def)

text \<open>
  C2, as the code has it. When the read of the partition at index \<open>k\<close> is the first to
  fail, \<^verbatim>\<open>GetLeases\<close> returns the error of that read and no record at all, having
  downloaded the partitions up to index \<open>k\<close> and none after it; the tick that called it
  logs the error, releases nothing and leaves the counter as it was after the poll.
\<close>

theorem GetLeases_stops_at_first_failure:
  assumes "k < length (GetPartitionIDs w)"
    and "snd (getLease sl w k (GetPartitionIDs w ! k)) = Inl err"
    and "\<forall>j<k. \<exists>lease. snd (getLease sl w j (GetPartitionIDs w ! j)) = Inr lease"
  shows "GetLeases sl w
           = (CallGetPartitionIDs # downloadsOf sl (take (Suc k) (GetPartitionIDs w)), Inl err)
         \<and> (\<forall>zc. 60 <s countIdle w zc \<longrightarrow>
               tick sl w zc
                 = ([CallPartitionIDsBeingProcessed, LogError ''process is idle for a while'',
                     CallGetPartitionIDs]
                    @ downloadsOf sl (take (Suc k) (GetPartitionIDs w))
                    @ [LogError ''error getting leases''],
                    Inr (countIdle w zc)))"
proof -
  let ?pids = "GetPartitionIDs w"
  have "getLeasesLoop sl w 0 ?pids (replicate (length ?pids) None)
          = (downloadsOf sl (take (Suc k) ?pids), Inl err)"
    using assms by (intro getLeasesLoop_first_failure) auto
  then have g: "GetLeases sl w = (CallGetPartitionIDs # downloadsOf sl (take (Suc k) ?pids), Inl err)"
    by (simp add: GetLeases_def Let_def andThen_def)
  then show ?thesis
    by (simp add: tick_above checkStaleLeases_def andThen_def)
qed

theorem GetLeases_stops_at_first_failure_witness:
  "GetLeases fixer
     (exampleWorld [] [''0'', ''2'', ''1''] (servedExcept ''2'' TransientIOError) None)
     = ([CallGetPartitionIDs, StoreDownload ''0'', StoreDownload ''2''], Inl TransientIOError)
   \<and> tick fixer
         (exampleWorld [] [''0'', ''2'', ''1''] (servedExcept ''2'' TransientIOError) None)
         60
     = ([CallPartitionIDsBeingProcessed, LogError ''process is idle for a while'',
         CallGetPartitionIDs, StoreDownload ''0'', StoreDownload ''2'',
         LogError ''error getting leases''],
        Inr 61)"
proof -
  let ?w = "exampleWorld [] [''0'', ''2'', ''1''] (servedExcept ''2'' TransientIOError) None"
  have 1: "1 < length (GetPartitionIDs ?w)"
    by (simp add: exampleWorld_def)
  have 2: "snd (getLease fixer ?w 1 (GetPartitionIDs ?w ! 1)) = Inl TransientIOError"
    by (simp add: code_defs example_defs servedExcept_def)
  have 3: "\<forall>j<1. \<exists>lease. snd (getLease fixer ?w j (GetPartitionIDs ?w ! j)) = Inr lease"
    by (simp add: code_defs example_defs servedExcept_def)
  have 4: "60 <s countIdle ?w 60"
    by (simp add: countIdle_def exampleWorld_def)
  have 5: "downloadsOf fixer (take (Suc 1) (GetPartitionIDs ?w)) = [StoreDownload ''0'', StoreDownload ''2'']"
    by (simp add: downloadsOf_def example_defs servedExcept_def)
  have 6: "countIdle ?w 60 = 61"
    by (simp add: countIdle_def exampleWorld_def)
  from GetLeases_stops_at_first_failure [OF 1 2 3] 4 5 6 show ?thesis
    by simp
qed

subsection \<open>The release pass and the counter\<close>

lemma releaseFailed_iff:
  "releaseFailed ev = (\<exists>b t e. ev = StoreReleaseLease b t (Some e))"
  by (cases ev) (auto simp: releaseFailed_def split: option.splits)

lemma GetLeases_events_not_failed:
  "ev \<in> set (fst (GetLeases lf w)) \<Longrightarrow> \<not> releaseFailed ev"
proof -
  assume a: "ev \<in> set (fst (GetLeases lf w))"
  let ?loop = "getLeasesLoop lf w 0 (GetPartitionIDs w) (replicate (length (GetPartitionIDs w)) None)"
  have "set (fst ?loop) \<subseteq> set (downloadsOf lf (GetPartitionIDs w))"
    using getLeasesLoop_events_prefix [of lf w 0 "GetPartitionIDs w"] by (rule set_mono_prefix)
  with a have "ev = CallGetPartitionIDs \<or> (\<exists>b. ev = StoreDownload b)"
    by (auto simp: fst_GetLeases downloadsOf_def)
  then show ?thesis by (auto simp: releaseFailed_def)
qed

text \<open>A tick that enters the release pass and does not panic: its trace and its counter.\<close>

lemma tick_with_pass:
  assumes "tick lf w zc = (evs, Inr z')" and "60 <s countIdle w zc"
    and "snd (GetLeases lf w) = Inr leases"
  shows "\<exists>lastErr.
           snd (releaseStaleLeases lf w 0 leases None) = Inr lastErr
           \<and> z' = (if lastErr = None then 0 else countIdle w zc)
           \<and> evs = [CallPartitionIDsBeingProcessed, LogError ''process is idle for a while'']
                   @ fst (GetLeases lf w) @ fst (releaseStaleLeases lf w 0 leases None)"
proof -
  obtain evsG where g: "GetLeases lf w = (evsG, Inr leases)"
    using assms(3) by (cases "GetLeases lf w") auto
  obtain evsR rr where r: "releaseStaleLeases lf w 0 leases None = (evsR, rr)"
    by (cases "releaseStaleLeases lf w 0 leases None")
  from assms(1,2) g r show ?thesis
    by (cases rr) (auto simp: tick_above checkStaleLeases_def andThen_def)
qed

text \<open>
  C3. In a release pass, a release that fails with \<open>TokenInvalidError\<close> does not prevent
  the reset of the idle-tick counter, whereas one that fails with \<open>TransientIOError\<close>
  does.

  The code does not tell the two apart: on the example store, the tick that crosses the
  threshold and whose release of the stale partition \<open>0\<close> fails with
  \<open>TokenInvalidError\<close> leaves the counter at 61.
\<close>

theorem token_invalid_blocks_reset:
  "tick fixer (exampleWorld [] [''0'', ''1''] served (Some TokenInvalidError)) 60
     = ([CallPartitionIDsBeingProcessed, LogError ''process is idle for a while'',
         CallGetPartitionIDs, StoreDownload ''0'', StoreDownload ''1'',
         LogError ''lease is stale, deleting'',
         StoreReleaseLease ''0'' ''token-0'' (Some TokenInvalidError),
         LogError ''error deleting lease''],
        Inr 61)"
  by (simp add: code_defs example_defs)

text \<open>
  C3, as the code has it. In a tick that enters the release pass (the threshold is
  crossed and the leases were read) and completes it, the counter is reset to zero
  exactly when no release of the pass failed, whatever the error of a failed release is:
  \<open>TokenInvalidError\<close> prevents the reset as \<open>TransientIOError\<close> does. When it is not
  reset the counter keeps the value it had after the poll.
\<close>

theorem any_release_failure_blocks_reset:
  assumes "tick lf w zc = (evs, Inr z')" and "60 <s countIdle w zc"
    and "snd (GetLeases lf w) = Inr leases"
  shows "(z' = 0) = (\<forall>b t e. StoreReleaseLease b t (Some e) \<notin> set evs)
         \<and> (z' = 0 \<or> z' = countIdle w zc)"
proof -
  from tick_with_pass [OF assms] obtain lastErr where
    r: "snd (releaseStaleLeases lf w 0 leases None) = Inr lastErr"
    and z: "z' = (if lastErr = None then 0 else countIdle w zc)"
    and evs: "evs = [CallPartitionIDsBeingProcessed, LogError ''process is idle for a while'']
                @ fst (GetLeases lf w) @ fst (releaseStaleLeases lf w 0 leases None)"
    by blast
  have nz: "countIdle w zc \<noteq> 0"
    using assms(2) by (auto simp: sless_60_iff)
  have "(lastErr = None) = (\<forall>ev \<in> set (fst (releaseStaleLeases lf w 0 leases None)). \<not> releaseFailed ev)"
    using releaseStaleLeases_lastErr [OF r] by simp
  also have "\<dots> = (\<forall>ev \<in> set evs. \<not> releaseFailed ev)"
    using GetLeases_events_not_failed [of _ lf w] by (auto simp: evs releaseFailed_def)
  also have "\<dots> = (\<forall>b t e. StoreReleaseLease b t (Some e) \<notin> set evs)"
    by (auto simp: releaseFailed_iff)
  finally have "(lastErr = None) = (\<forall>b t e. StoreReleaseLease b t (Some e) \<notin> set evs)" .
  with z nz show ?thesis by auto
qed

theorem any_release_failure_blocks_reset_witness:
  "StoreReleaseLease ''0'' ''token-0'' (Some TransientIOError)
     \<in> set (fst (tick fixer (exampleWorld [] [''0'', ''1''] served (Some TransientIOError)) 60))
   \<and> snd (tick fixer (exampleWorld [] [''0'', ''1''] served (Some TransientIOError)) 60) = Inr 61
   \<and> snd (tick fixer (exampleWorld [] [''0'', ''1''] served None) 60) = Inr 0"
proof -
  let ?w = "exampleWorld [] [''0'', ''1''] served (Some TransientIOError)"
  let ?evs = "[CallPartitionIDsBeingProcessed, LogError ''process is idle for a while'',
         CallGetPartitionIDs, StoreDownload ''0'', StoreDownload ''1'',
         LogError ''lease is stale, deleting'',
         StoreReleaseLease ''0'' ''token-0'' (Some TransientIOError),
         LogError ''error deleting lease'']"
  have t: "tick fixer ?w 60 = (?evs, Inr 61)"
    by (simp add: code_defs example_defs)
  have c: "60 <s countIdle ?w 60"
    by (simp add: countIdle_def exampleWorld_def)
  have g: "snd (GetLeases fixer ?w)
     = Inr [Some ((leaseOf ''0'' (Some (checkpointAt (exampleNow - 31 * Minute))))\<lparr>State := LeaseStateLeased\<rparr>),
            Some ((leaseOf ''1'' (Some (checkpointAt (exampleNow - 5 * Minute))))\<lparr>State := LeaseStateLeased\<rparr>)]"
    by (simp add: code_defs example_defs)
  have "((61 :: 64 word) = 0) = (\<forall>b t e. StoreReleaseLease b t (Some e) \<notin> set ?evs)"
    using any_release_failure_blocks_reset [OF t c g] by simp
  moreover have "snd (tick fixer (exampleWorld [] [''0'', ''1''] served None) 60) = Inr 0"
    by (simp add: code_defs example_defs)
  ultimately show ?thesis using t by simp
qed

subsection \<open>The loop\<close>

lemma step_AtSelect_done:
  "phase s = AtSelect \<Longrightarrow> fst inp \<Longrightarrow> step lf inp s = ([], s\<lparr>phase := Returned\<rparr>)"
  by (simp add: step_def)

lemma step_AtSelect_below:
  "phase s = AtSelect \<Longrightarrow> \<not> fst inp \<Longrightarrow> \<not> 60 <s countIdle (snd inp) (zeroCount s) \<Longrightarrow>
     step lf inp s =
       ([CallPartitionIDsBeingProcessed],
        \<lparr>phase = Sleeping, zeroCount = countIdle (snd inp) (zeroCount s)\<rparr>)"
  by (simp add: step_def tick_below)

lemma step_Sleeping:
  "phase s = Sleeping \<Longrightarrow> step lf inp s = ([TimeSleep (1 * Second)], s\<lparr>phase := AtSelect\<rparr>)"
  by (simp add: step_def)

lemma step_Returned:
  "phase s = Returned \<Longrightarrow> step lf inp s = ([], s)"
  by (simp add: step_def)

lemma step_Crashed:
  "phase s = Crashed pn \<Longrightarrow> step lf inp s = ([], s)"
  by (simp add: step_def)

lemma countIdle_small:
  assumes "0 \<le> sint zc" and "sint zc \<le> 59"
  shows "0 \<le> sint (countIdle w zc) \<and> sint (countIdle w zc) \<le> sint zc + 1"
proof (cases "PartitionIDsBeingProcessed w = []")
  case True
  have "sint (zc + 1) = sint zc + 1"
    using assms by (intro sint_succ) simp
  with True assms show ?thesis by simp
next
  case False
  with assms show ?thesis by simp
qed

text \<open>
  From a counter \<open>c\<close> in \<open>0..60\<close> the loop does not read the partition IDs before the
  counter is above 60, which takes \<open>61 - c\<close> ticks, each of two steps.
\<close>

lemma run_no_scan:
  assumes "0 \<le> sint (zeroCount s)"
    and "phase s = AtSelect \<Longrightarrow> 2 * sint (zeroCount s) + int (length inps) \<le> 120"
    and "phase s = Sleeping \<Longrightarrow> 2 * sint (zeroCount s) + int (length inps) \<le> 121"
  shows "CallGetPartitionIDs \<notin> set (fst (run lf inps s))"
  using assms
proof (induction inps arbitrary: s)
  case Nil
  then show ?case by simp
next
  case (Cons inp inps)
  show ?case
  proof (cases "phase s")
    case AtSelect
    show ?thesis
    proof (cases "fst inp")
      case True
      have "CallGetPartitionIDs \<notin> set (fst (run lf inps (s\<lparr>phase := Returned\<rparr>)))"
        using Cons.prems(1) by (intro Cons.IH) simp_all
      with AtSelect True show ?thesis by (simp add: step_AtSelect_done)
    next
      case False
      let ?c = "countIdle (snd inp) (zeroCount s)"
      have small: "sint (zeroCount s) \<le> 59"
        using Cons.prems(2) [OF AtSelect] by simp
      note ci = countIdle_small [OF Cons.prems(1) small, of "snd inp"]
      have below: "\<not> 60 <s ?c"
        using ci small by (simp add: sless_60_iff)
      have "CallGetPartitionIDs \<notin> set (fst (run lf inps \<lparr>phase = Sleeping, zeroCount = ?c\<rparr>))"
        using ci Cons.prems(2) [OF AtSelect] by (intro Cons.IH) simp_all
      with AtSelect False below show ?thesis by (simp add: step_AtSelect_below)
    qed
  next
    case Sleeping
    have "CallGetPartitionIDs \<notin> set (fst (run lf inps (s\<lparr>phase := AtSelect\<rparr>)))"
      using Cons.prems(1) Cons.prems(3) [OF Sleeping] by (intro Cons.IH) simp_all
    with Sleeping show ?thesis by (simp add: step_Sleeping)
  next
    case Returned
    have "CallGetPartitionIDs \<notin> set (fst (run lf inps s))"
      using Cons.prems(1) Returned by (intro Cons.IH) simp_all
    with Returned show ?thesis by (simp add: step_Returned)
  next
    case (Crashed pn)
    have "CallGetPartitionIDs \<notin> set (fst (run lf inps s))"
      using Cons.prems(1) Crashed by (intro Cons.IH) simp_all
    with Crashed show ?thesis by (simp add: step_Crashed)
  qed
qed

text \<open>The goroutine starts with the counter at 0: its first 60 ticks do not scan.\<close>

lemma no_scan_in_first_60_ticks:
  "length inps \<le> 120 \<Longrightarrow> CallGetPartitionIDs \<notin> set (fst (run lf inps startWatchdog))"
  by (intro run_no_scan) (simp_all add: startWatchdog_def)

text \<open>
  On the example store the tick that crosses the threshold releases the lease of
  partition \<open>0\<close>, whose checkpoint is 31 minutes old, and leaves that of partition \<open>1\<close>,
  whose checkpoint is 5 minutes old; the pass is clean and the counter is reset.
\<close>

lemma example_tick_releases_the_stale_lease:
  "tick fixer (exampleWorld [] [''0'', ''1''] served None) 60
     = ([CallPartitionIDsBeingProcessed, LogError ''process is idle for a while'',
         CallGetPartitionIDs, StoreDownload ''0'', StoreDownload ''1'',
         LogError ''lease is stale, deleting'',
         StoreReleaseLease ''0'' ''token-0'' None],
        Inr 0)"
  by (simp add: code_defs example_defs)

text \<open>
  C5. The watchdog scans the store on a tick exactly when the counter of idle ticks,
  as counted on that tick, strictly exceeds the threshold of 60. The counter is reset to
  zero precisely when activity resumes or a release pass completes with zero errors, and
  otherwise keeps its count. After a reset the detector is re-armed: the loop does not
  scan again during the sleep of that tick and the 60 ticks after it (121 steps: the
  sleep, then a pass and a sleep for each tick).
\<close>

theorem scan_above_threshold_and_rearm:
  "(CallGetPartitionIDs \<in> set (fst (tick lf w zc))) = (60 <s countIdle w zc)
   \<and> (\<forall>z'. snd (tick lf w zc) = Inr z' \<longrightarrow>
         z' = (if PartitionIDsBeingProcessed w \<noteq> [] \<or> (60 <s countIdle w zc \<and> cleanPass lf w)
               then 0 else zc + 1))
   \<and> (\<forall>inps. length inps \<le> 121 \<longrightarrow>
         CallGetPartitionIDs \<notin> set (fst (run lf inps \<lparr>phase = Sleeping, zeroCount = 0\<rparr>)))"
proof (intro conjI allI impI)
  show "(CallGetPartitionIDs \<in> set (fst (tick lf w zc))) = (60 <s countIdle w zc)"
    by (rule tick_scans_iff)
next
  fix z' assume a: "snd (tick lf w zc) = Inr z'"
  show "z' = (if PartitionIDsBeingProcessed w \<noteq> [] \<or> (60 <s countIdle w zc \<and> cleanPass lf w)
              then 0 else zc + 1)"
  proof (cases "PartitionIDsBeingProcessed w = []")
    case False
    with a show ?thesis by (simp add: tick_active)
  next
    case True
    show ?thesis
    proof (cases "60 <s countIdle w zc")
      case False
      with a True show ?thesis by (simp add: tick_below)
    next
      case above: True
      with a have "snd (checkStaleLeases lf w (countIdle w zc)) = Inr z'"
        by (simp add: tick_above)
      from checkStaleLeases_counter [OF this] True above show ?thesis by simp
    qed
  qed
next
  fix inps :: "(bool \<times> World) list"
  assume "length inps \<le> 121"
  then show "CallGetPartitionIDs \<notin> set (fst (run lf inps \<lparr>phase = Sleeping, zeroCount = 0\<rparr>))"
    by (intro run_no_scan) simp_all
qed

theorem scan_above_threshold_and_rearm_witness:
  "CallGetPartitionIDs \<in> set (fst (tick fixer (exampleWorld [] [''0'', ''1''] served None) 60))
   \<and> snd (tick fixer (exampleWorld [] [''0'', ''1''] served None) 60) = Inr 0
   \<and> cleanPass fixer (exampleWorld [] [''0'', ''1''] served None)
   \<and> CallGetPartitionIDs \<notin> set (fst (tick fixer (exampleWorld [] [''0'', ''1''] served None) 59))
   \<and> CallGetPartitionIDs
        \<notin> set (fst (run fixer
                      [(False, exampleWorld [] [''0'', ''1''] served None),
                       (False, exampleWorld [] [''0'', ''1''] served None)]
                      \<lparr>phase = Sleeping, zeroCount = 0\<rparr>))"
proof -
  let ?w = "exampleWorld [] [''0'', ''1''] served None"
  have c60: "60 <s countIdle ?w 60" and c59: "\<not> 60 <s countIdle ?w 59"
    by (simp_all add: countIdle_def exampleWorld_def)
  have t: "snd (tick fixer ?w 60) = Inr 0"
    by (simp add: code_defs example_defs)
  have idle: "PartitionIDsBeingProcessed ?w = []"
    by (simp add: exampleWorld_def)
  note th60 = scan_above_threshold_and_rearm [of fixer ?w 60]
  note th59 = scan_above_threshold_and_rearm [of fixer ?w 59]
  have 1: "CallGetPartitionIDs \<in> set (fst (tick fixer ?w 60))"
    using th60 c60 by blast
  have "(0 :: 64 word) = (if PartitionIDsBeingProcessed ?w \<noteq> [] \<or> (60 <s countIdle ?w 60 \<and> cleanPass fixer ?w)
               then 0 else 60 + 1)"
    using th60 t by blast
  then have 2: "cleanPass fixer ?w"
    using idle c60 by (simp split: if_splits)
  have 3: "CallGetPartitionIDs \<notin> set (fst (tick fixer ?w 59))"
    using th59 c59 by blast
  have "length [(False, ?w), (False, ?w)] \<le> 121" by simp
  with th60 have 4: "CallGetPartitionIDs
        \<notin> set (fst (run fixer [(False, ?w), (False, ?w)] \<lparr>phase = Sleeping, zeroCount = 0\<rparr>))"
    by blast
  from 1 t 2 3 4 show ?thesis by blast
qed

text \<open>
  The other side of the re-arming: a pass that is not clean leaves the counter above the
  threshold, so the next idle tick scans again.
\<close>

lemma unclean_pass_scans_again:
  assumes "snd (tick lf w zc) = Inr z'" and "60 <s countIdle w zc" and "z' \<noteq> 0"
    and "sint z' < 2 ^ 63 - 1" and "PartitionIDsBeingProcessed w' = []"
  shows "CallGetPartitionIDs \<in> set (fst (tick lf w' z'))"
proof -
  have "snd (checkStaleLeases lf w (countIdle w zc)) = Inr z'"
    using assms(1,2) by (simp add: tick_above)
  from checkStaleLeases_counter [OF this] assms(3) have "z' = countIdle w zc"
    by (simp split: if_splits)
  with assms(2) have "60 < sint z'" by (simp add: sless_60_iff)
  moreover have "sint (z' + 1) = sint z' + 1"
    using assms(4) by (rule sint_succ)
  ultimately have "60 <s countIdle w' z'"
    using assms(5) by (simp add: sless_60_iff)
  then show ?thesis by (simp add: tick_scans_iff)
qed

text \<open>
  C6. On a tick where the processor reports at least one partition being processed the
  counter becomes 0, from any prior value, and the tick ends there. Where it reports
  none the counter is incremented by exactly 1 (a Go \<^verbatim>\<open>int\<close> addition: it is the next
  integer unless the counter is at the largest \<^verbatim>\<open>int\<close>); this is the value compared with
  the threshold, and the tick ends with it unless a clean release pass resets it.
\<close>

theorem counter_reset_or_incremented:
  "(PartitionIDsBeingProcessed w \<noteq> [] \<longrightarrow>
      countIdle w zc = 0 \<and> tick lf w zc = ([CallPartitionIDsBeingProcessed], Inr 0))
   \<and> (PartitionIDsBeingProcessed w = [] \<longrightarrow>
        countIdle w zc = zc + 1
        \<and> (sint zc < 2 ^ 63 - 1 \<longrightarrow> sint (countIdle w zc) = sint zc + 1)
        \<and> (\<forall>z'. snd (tick lf w zc) = Inr z' \<longrightarrow>
              z' = (if 60 <s zc + 1 \<and> cleanPass lf w then 0 else zc + 1)))"
proof (intro conjI impI allI)
  assume "PartitionIDsBeingProcessed w \<noteq> []"
  then show "countIdle w zc = 0" and "tick lf w zc = ([CallPartitionIDsBeingProcessed], Inr 0)"
    by (simp_all add: tick_active)
next
  assume idle: "PartitionIDsBeingProcessed w = []"
  then show "countIdle w zc = zc + 1" by simp
  show "sint (countIdle w zc) = sint zc + 1" if "sint zc < 2 ^ 63 - 1"
    using idle that by (simp add: sint_succ)
  show "z' = (if 60 <s zc + 1 \<and> cleanPass lf w then 0 else zc + 1)"
    if a: "snd (tick lf w zc) = Inr z'" for z'
  proof (cases "60 <s countIdle w zc")
    case False
    with a idle show ?thesis by (simp add: tick_below)
  next
    case True
    with a have "snd (checkStaleLeases lf w (countIdle w zc)) = Inr z'"
      by (simp add: tick_above)
    from checkStaleLeases_counter [OF this] idle True show ?thesis by simp
  qed
qed

theorem counter_reset_or_incremented_witness:
  "PartitionIDsBeingProcessed (exampleWorld [''1''] [''0'', ''1''] served None) \<noteq> []
   \<and> countIdle (exampleWorld [''1''] [''0'', ''1''] served None) 75 = 0
   \<and> tick fixer (exampleWorld [''1''] [''0'', ''1''] served None) 75
       = ([CallPartitionIDsBeingProcessed], Inr 0)
   \<and> PartitionIDsBeingProcessed (exampleWorld [] [''0'', ''1''] served None) = []
   \<and> countIdle (exampleWorld [] [''0'', ''1''] served None) 29 = 30
   \<and> sint (countIdle (exampleWorld [] [''0'', ''1''] served None) 29) = 30
   \<and> snd (tick fixer (exampleWorld [] [''0'', ''1''] served None) 29) = Inr 30"
proof -
  let ?a = "exampleWorld [''1''] [''0'', ''1''] served None"
  let ?i = "exampleWorld [] [''0'', ''1''] served None"
  have act: "PartitionIDsBeingProcessed ?a \<noteq> []" and idle: "PartitionIDsBeingProcessed ?i = []"
    by (simp_all add: exampleWorld_def)
  have t: "snd (tick fixer ?i 29) = Inr 30"
    by (simp add: code_defs example_defs)
  have s: "sint (29 :: 64 word) < 2 ^ 63 - 1" by simp
  note a = counter_reset_or_incremented [of ?a 75 fixer]
  note i = counter_reset_or_incremented [of ?i 29 fixer]
  have 1: "countIdle ?a 75 = 0 \<and> tick fixer ?a 75 = ([CallPartitionIDsBeingProcessed], Inr 0)"
    using a act by blast
  have 2: "countIdle ?i 29 = 29 + 1" using i idle by blast
  have 3: "sint (countIdle ?i 29) = sint (29 :: 64 word) + 1" using i idle s by blast
  from 1 2 3 act idle t show ?thesis by simp
qed

subsection \<open>Which partitions are read\<close>







subsection \<open>Cancellation\<close>

lemma run_Returned:
  "phase s = Returned \<Longrightarrow> run lf inps s = ([], s)"
  by (induction inps) (simp_all add: step_Returned andThen_def)

lemma run_cancelled_AtSelect:
  assumes "phase s = AtSelect" and "\<forall>inp \<in> set inps. fst inp" and "1 \<le> length inps"
  shows "run lf inps s = ([], s\<lparr>phase := Returned\<rparr>)"
proof (cases inps)
  case Nil
  with assms show ?thesis by simp
next
  case (Cons inp rest)
  with assms have "step lf inp s = ([], s\<lparr>phase := Returned\<rparr>)"
    by (simp add: step_AtSelect_done)
  with Cons show ?thesis
    by (simp add: run_Returned andThen_def)
qed

lemma run_cancelled_Sleeping:
  assumes "phase s = Sleeping" and "\<forall>inp \<in> set inps. fst inp" and "2 \<le> length inps"
  shows "run lf inps s = ([TimeSleep (1 * Second)], s\<lparr>phase := Returned\<rparr>)"
proof (cases inps)
  case Nil
  with assms show ?thesis by simp
next
  case (Cons inp rest)
  have "run lf rest (s\<lparr>phase := AtSelect\<rparr>) = ([], s\<lparr>phase := AtSelect\<rparr>\<lparr>phase := Returned\<rparr>)"
    using assms Cons by (intro run_cancelled_AtSelect) simp_all
  with Cons assms(1) show ?thesis
    by (simp add: step_Sleeping andThen_def)
qed

text \<open>
  C8. After the watchdog's context is cancelled the loop exits within one poll interval
  plus the pass in flight, and issues no store call after observing the cancellation;
  cancellation is checked once per tick and also while waiting on the poll timer.

  The last part is not what the code does: the wait is a \<^verbatim>\<open>time.Sleep\<close>, which does not
  look at the context. A goroutine that is sleeping when the context is cancelled sleeps
  on, and is back at the \<^verbatim>\<open>select\<close> after it, not returned.
\<close>

theorem sleep_ignores_cancellation:
  "step fixer (True, exampleWorld [] [''0'', ''1''] served None) \<lparr>phase = Sleeping, zeroCount = 7\<rparr>
     = ([TimeSleep (1 * Second)], \<lparr>phase = AtSelect, zeroCount = 7\<rparr>)"
  by (simp add: step_def)

text \<open>
  C8, as the code has it. Cancellation is checked once per tick, at the \<^verbatim>\<open>select\<close> at
  the top of the loop and before anything else, and not during the sleep. With the
  context cancelled, a goroutine at the \<^verbatim>\<open>select\<close> returns at once, and one that is
  sleeping (after the pass that was in flight) returns after that one sleep; neither
  makes a store call or any other call, and once returned the goroutine does nothing.
  (The model counts steps; it has no clock for the length of a pass or of the sleep.)
\<close>

theorem cancelled_watchdog_returns:
  assumes "\<forall>inp \<in> set inps. fst inp"
    and "phase s = AtSelect \<or> phase s = Sleeping"
    and "2 \<le> length inps"
  shows "phase (snd (run lf inps s)) = Returned
         \<and> zeroCount (snd (run lf inps s)) = zeroCount s
         \<and> fst (run lf inps s) = (if phase s = Sleeping then [TimeSleep (1 * Second)] else [])
         \<and> (\<forall>ev \<in> set (fst (run lf inps s)). \<not> isStoreCall ev)
         \<and> (phase s = AtSelect \<longrightarrow> step lf (True, w) s = ([], s\<lparr>phase := Returned\<rparr>))
         \<and> (\<forall>more. run lf more (snd (run lf inps s)) = ([], snd (run lf inps s)))"
proof (cases "phase s = Sleeping")
  case True
  from run_cancelled_Sleeping [OF True assms(1) assms(3)]
  have r: "run lf inps s = ([TimeSleep (1 * Second)], s\<lparr>phase := Returned\<rparr>)" .
  with True show ?thesis
    by (simp add: isStoreCall_def run_Returned)
next
  case False
  with assms(2) have a: "phase s = AtSelect" by simp
  have "1 \<le> length inps" using assms(3) by simp
  from run_cancelled_AtSelect [OF a assms(1) this]
  have r: "run lf inps s = ([], s\<lparr>phase := Returned\<rparr>)" .
  with a show ?thesis
    by (simp add: run_Returned step_AtSelect_done)
qed

theorem cancelled_watchdog_returns_witness:
  "fst (True, exampleWorld [] [''0'', ''1''] served None)
   \<and> phase \<lparr>phase = Sleeping, zeroCount = 61\<rparr> = Sleeping
   \<and> run fixer
        [(True, exampleWorld [] [''0'', ''1''] served None),
         (True, exampleWorld [] [''0'', ''1''] served None)]
        \<lparr>phase = Sleeping, zeroCount = 61\<rparr>
       = ([TimeSleep (1 * Second)], \<lparr>phase = Returned, zeroCount = 61\<rparr>)"
proof -
  let ?w = "exampleWorld [] [''0'', ''1''] served None"
  let ?s = "\<lparr>phase = Sleeping, zeroCount = 61\<rparr>"
  have 1: "\<forall>inp \<in> set [(True, ?w), (True, ?w)]. fst inp" by simp
  have 2: "phase ?s = AtSelect \<or> phase ?s = Sleeping" by simp
  have 3: "2 \<le> length [(True, ?w), (True, ?w)]" by simp
  from cancelled_watchdog_returns [OF 1 2 3, of fixer]
  have "phase (snd (run fixer [(True, ?w), (True, ?w)] ?s)) = Returned"
    and "zeroCount (snd (run fixer [(True, ?w), (True, ?w)] ?s)) = zeroCount ?s"
    and "fst (run fixer [(True, ?w), (True, ?w)] ?s) = [TimeSleep (1 * Second)]"
    by simp_all
  then have "run fixer [(True, ?w), (True, ?w)] ?s = ([TimeSleep (1 * Second)], \<lparr>phase = Returned, zeroCount = 61\<rparr>)"
    by (cases "run fixer [(True, ?w), (True, ?w)] ?s") (auto simp: Watchdog.equality)
  then show ?thesis by simp
qed

subsection \<open>The event handler\<close>

text \<open>
  C9. When the event callback signals irrecoverable failure (\<^verbatim>\<open>processEvents\<close> returns
  false), the handler, in this order, logs the condition at error severity, stops the
  input, cancels the watchdog's context, and panics, which terminates the process. When
  the callback succeeds none of these happens, and the handler returns \<^verbatim>\<open>nil\<close>.
\<close>

theorem handler_fatal_policy:
  "handler False
     = ([LogError onEventErrMessage, InputStop, CancelWatcher],
        Inl (PanicError (ErrorString onEventErrMessage)))
   \<and> handler True = ([], Inr None)
   \<and> onEventErrMessage = ''OnEvent function returned false. Stopping input worker''"
  by (simp add: handler_def onEventErrMessage_def)

end
